theory Spec2Isabelle
  imports Main
begin

unbundle bit_operations_syntax

section \<open>Binary packets of 02_serial_communication.py\<close>

text \<open>
  The Python integers of the source are \<open>int\<close>. A \<^verbatim>\<open>bytearray\<close> and a \<^verbatim>\<open>bytes\<close> object
  are lists of integers; storing a value outside \<open>0..255\<close> into a bytearray raises
  \<^verbatim>\<open>ValueError\<close>, which is the only exception the modelled functions can raise on
  integer input.
\<close>

datatype error = ValueError

definition is_byte :: "int \<Rightarrow> bool" where
  "is_byte b = (0 \<le> b \<and> b < 256)"

text \<open>\<^verbatim>\<open>bytearray.append(b)\<close> and \<^verbatim>\<open>bytearray.extend(bs)\<close>.\<close>

definition bytearray_append :: "int list \<Rightarrow> int \<Rightarrow> error + int list" where
  "bytearray_append d b = (if is_byte b then Inr (d @ [b]) else Inl ValueError)"

definition bytearray_extend :: "int list \<Rightarrow> int list \<Rightarrow> error + int list" where
  "bytearray_extend d bs = (if list_all is_byte bs then Inr (d @ bs) else Inl ValueError)"

text \<open>The loop \<^verbatim>\<open>for b in xs: crc ^= b\<close>, started with the value \<open>crc\<close>.\<close>

fun xor_loop :: "int \<Rightarrow> int list \<Rightarrow> int" where
  "xor_loop crc [] = crc"
| "xor_loop crc (b # bs) = xor_loop (crc XOR b) bs"

subsection \<open>Pattern 2: build_packet and parse_packet\<close>

definition build_packet :: "int \<Rightarrow> int list \<Rightarrow> error + int list" where
  "build_packet cmd payload =
     (let len = int (length payload) + 1 in
      case bytearray_append [] 0xAA of Inl e \<Rightarrow> Inl e | Inr p1 \<Rightarrow>
      (case bytearray_append p1 len of Inl e \<Rightarrow> Inl e | Inr p2 \<Rightarrow>
      (case bytearray_append p2 cmd of Inl e \<Rightarrow> Inl e | Inr p3 \<Rightarrow>
      (case bytearray_extend p3 payload of Inl e \<Rightarrow> Inl e | Inr p4 \<Rightarrow>
      (let crc = xor_loop 0 (drop 1 p4) in
       case bytearray_append p4 crc of Inl e \<Rightarrow> Inl e | Inr p5 \<Rightarrow> Inr p5)))))"

text \<open>
  \<^verbatim>\<open>data[1:-1]\<close> is \<open>butlast (drop 1 data)\<close>, \<^verbatim>\<open>data[3:-1]\<close> is \<open>butlast (drop 3 data)\<close>
  and \<^verbatim>\<open>data[-1]\<close> is \<open>last data\<close>; every index read below is guarded by the
  length test \<^verbatim>\<open>len(data) < 4\<close>.
\<close>

definition parse_packet :: "int list \<Rightarrow> (int \<times> int list) option" where
  "parse_packet data =
     (if length data < 4 then None
      else if data ! 0 \<noteq> 0xAA then None
      else
        let len = data ! 1 in
        if int (length data) < len + 3 then None
        else
          let crc = xor_loop 0 (butlast (drop 1 data)) in
          if crc \<noteq> last data then None
          else Some (data ! 2, butlast (drop 3 data)))"

subsection \<open>Pattern 4: the PacketReceiver state machine\<close>

datatype RxState = WAIT_SYNC | WAIT_LENGTH | WAIT_DATA | WAIT_CRC

text \<open>The field \<^verbatim>\<open>length\<close> of the class is \<open>length_r\<close> here (\<open>length\<close> is the list function).\<close>

record PacketReceiver =
  state :: RxState
  length_r :: int
  data :: "int list"
  packets :: "int list list"

text \<open>\<^verbatim>\<open>PacketReceiver.__init__\<close>\<close>

definition init :: PacketReceiver where
  "init = \<lparr>state = WAIT_SYNC, length_r = 0, data = [], packets = []\<rparr>"

text \<open>
  \<^verbatim>\<open>PacketReceiver.feed\<close>. In \<open>WAIT_SYNC\<close> the byte is only compared, so nothing can
  raise there; in the other three states the byte is appended to the bytearray, which
  raises for an integer outside \<open>0..255\<close>. In \<open>WAIT_LENGTH\<close> the assignment to
  \<^verbatim>\<open>self.length\<close> comes before the append; the result \<open>Inl\<close> stands for the raised
  exception and carries no receiver.
\<close>

definition feed :: "PacketReceiver \<Rightarrow> int \<Rightarrow> error + PacketReceiver" where
  "feed r byte =
     (case state r of
        WAIT_SYNC \<Rightarrow>
          if byte = 0xAA then Inr (r\<lparr>data := [byte], state := WAIT_LENGTH\<rparr>)
          else Inr r
      | WAIT_LENGTH \<Rightarrow>
          (case bytearray_append (data r) byte of
             Inl e \<Rightarrow> Inl e
           | Inr d \<Rightarrow> Inr (r\<lparr>length_r := byte, data := d, state := WAIT_DATA\<rparr>))
      | WAIT_DATA \<Rightarrow>
          (case bytearray_append (data r) byte of
             Inl e \<Rightarrow> Inl e
           | Inr d \<Rightarrow>
               if int (length d) = length_r r + 2
               then Inr (r\<lparr>data := d, state := WAIT_CRC\<rparr>)
               else Inr (r\<lparr>data := d\<rparr>))
      | WAIT_CRC \<Rightarrow>
          (case bytearray_append (data r) byte of
             Inl e \<Rightarrow> Inl e
           | Inr d \<Rightarrow>
               let crc = xor_loop 0 (butlast (drop 1 d)) in
               if crc = byte
               then Inr (r\<lparr>data := d, packets := packets r @ [d], state := WAIT_SYNC\<rparr>)
               else Inr (r\<lparr>data := d, state := WAIT_SYNC\<rparr>)))"

text \<open>\<^verbatim>\<open>PacketReceiver.get_packets\<close>: the returned list and the receiver afterwards.\<close>

definition get_packets :: "PacketReceiver \<Rightarrow> int list list \<times> PacketReceiver" where
  "get_packets r = (packets r, r\<lparr>packets := []\<rparr>)"

text \<open>
  The caller's loop \<^verbatim>\<open>for byte in stream: receiver.feed(byte)\<close>; an exception of
  \<open>feed\<close> ends it.
\<close>

fun feed_all :: "PacketReceiver \<Rightarrow> int list \<Rightarrow> error + PacketReceiver" where
  "feed_all r [] = Inr r"
| "feed_all r (b # bs) = (case feed r b of Inl e \<Rightarrow> Inl e | Inr r' \<Rightarrow> feed_all r' bs)"

text \<open>
  The demonstration of the source: a new receiver, the loop over the stream, then one
  call of \<open>get_packets\<close>.
\<close>

definition receive :: "int list \<Rightarrow> error + int list list" where
  "receive stream =
     (case feed_all init stream of Inl e \<Rightarrow> Inl e | Inr r \<Rightarrow> Inr (fst (get_packets r)))"

subsection \<open>Frames, call sequences and well-formedness\<close>

text \<open>
  The wire frame of a payload as the specification lays it out: the sync byte, the
  length byte, the payload, and the XOR of the length byte and the payload bytes.
  \<open>build_packet cmd payload\<close> produces the wire frame of \<open>cmd # payload\<close>
  (lemma \<open>build_packet_wire_frame\<close>).
\<close>

definition wire_frame :: "int list \<Rightarrow> int list" where
  "wire_frame p = 0xAA # int (length p) # p @ [xor_loop 0 (int (length p) # p)]"

text \<open>
  A structurally complete candidate frame: the sync byte, the length byte of the
  payload \<open>p\<close>, the payload, and any last byte \<open>c\<close>. The wire frame of \<open>p\<close> is the
  candidate whose last byte is the XOR of the length byte and the payload.
\<close>

definition candidate :: "int list \<Rightarrow> int \<Rightarrow> int list" where
  "candidate p c = 0xAA # int (length p) # p @ [c]"

text \<open>
  A caller's history is a sequence of calls on one receiver; \<open>run\<close> executes it and
  collects what each \<open>get_packets\<close> returned, \<open>fed\<close> is the bytes it fed.
\<close>

datatype call = Feed int | GetPackets

fun run :: "PacketReceiver \<Rightarrow> call list \<Rightarrow> error + (int list list list \<times> PacketReceiver)" where
  "run r [] = Inr ([], r)"
| "run r (Feed b # cs) = (case feed r b of Inl e \<Rightarrow> Inl e | Inr r' \<Rightarrow> run r' cs)"
| "run r (GetPackets # cs) =
     (case get_packets r of (pkts, r') \<Rightarrow>
        (case run r' cs of Inl e \<Rightarrow> Inl e | Inr (outs, r'') \<Rightarrow> Inr (pkts # outs, r'')))"

fun fed :: "call list \<Rightarrow> int list" where
  "fed [] = []"
| "fed (Feed b # cs) = b # fed cs"
| "fed (GetPackets # cs) = fed cs"

text \<open>
  A queued frame \<open>f\<close> is well formed when \<open>f[0] = 0xAA\<close>, \<open>len(f) = f[1] + 3\<close> and its
  last byte is the XOR of \<open>f[1] .. f[len(f)-2]\<close>.
\<close>

definition well_formed :: "int list \<Rightarrow> bool" where
  "well_formed f =
     (2 \<le> length f \<and> f ! 0 = 0xAA \<and> int (length f) = f ! 1 + 3 \<and>
      last f = xor_loop 0 (butlast (drop 1 f)))"

text \<open>What the accumulator holds in each state, and the invariant of a receiver.\<close>

definition acc_ok :: "PacketReceiver \<Rightarrow> bool" where
  "acc_ok r =
     (case state r of
        WAIT_SYNC \<Rightarrow> True
      | WAIT_LENGTH \<Rightarrow> data r = [0xAA]
      | WAIT_DATA \<Rightarrow> 2 \<le> length (data r) \<and> data r ! 0 = 0xAA \<and> data r ! 1 = length_r r
      | WAIT_CRC \<Rightarrow> 2 \<le> length (data r) \<and> data r ! 0 = 0xAA \<and> data r ! 1 = length_r r \<and>
          int (length (data r)) = length_r r + 2)"

definition receiver_inv :: "PacketReceiver \<Rightarrow> bool" where
  "receiver_inv r = (acc_ok r \<and> list_all well_formed (packets r))"

section \<open>Basic facts\<close>

lemma xor_loop_append: "xor_loop c (xs @ ys) = xor_loop (xor_loop c xs) ys"
  by (induction xs arbitrary: c) simp_all

lemma is_byte_xor: "is_byte a \<Longrightarrow> is_byte b \<Longrightarrow> is_byte (a XOR b)"
  unfolding is_byte_def using XOR_upper [of a 8 b] by simp

lemma is_byte_xor_loop: "is_byte c \<Longrightarrow> list_all is_byte xs \<Longrightarrow> is_byte (xor_loop c xs)"
  by (induction xs arbitrary: c) (simp_all add: is_byte_xor)

lemma feed_all_append:
  "feed_all r (xs @ ys) = (case feed_all r xs of Inl e \<Rightarrow> Inl e | Inr r' \<Rightarrow> feed_all r' ys)"
  by (induction xs arbitrary: r) (simp_all split: sum.splits)

subsection \<open>One step in each state\<close>

lemma feed_WAIT_SYNC:
  "state r = WAIT_SYNC \<Longrightarrow>
   feed r b = (if b = 0xAA then Inr (r\<lparr>data := [b], state := WAIT_LENGTH\<rparr>) else Inr r)"
  by (simp add: feed_def)

lemma feed_WAIT_LENGTH:
  "state r = WAIT_LENGTH \<Longrightarrow> is_byte b \<Longrightarrow>
   feed r b = Inr (r\<lparr>length_r := b, data := data r @ [b], state := WAIT_DATA\<rparr>)"
  by (simp add: feed_def bytearray_append_def)

lemma feed_WAIT_DATA:
  "state r = WAIT_DATA \<Longrightarrow> is_byte b \<Longrightarrow>
   feed r b = (if int (length (data r)) + 1 = length_r r + 2
               then Inr (r\<lparr>data := data r @ [b], state := WAIT_CRC\<rparr>)
               else Inr (r\<lparr>data := data r @ [b]\<rparr>))"
  by (simp add: feed_def bytearray_append_def)

lemma feed_WAIT_CRC:
  "state r = WAIT_CRC \<Longrightarrow> is_byte b \<Longrightarrow>
   feed r b = (if xor_loop 0 (drop 1 (data r)) = b
               then Inr (r\<lparr>data := data r @ [b], packets := packets r @ [data r @ [b]],
                           state := WAIT_SYNC\<rparr>)
               else Inr (r\<lparr>data := data r @ [b], state := WAIT_SYNC\<rparr>))"
  by (simp add: feed_def bytearray_append_def Let_def butlast_append drop_append)

subsection \<open>A whole frame\<close>

text \<open>In \<open>WAIT_DATA\<close>, a non-empty run of bytes that fills the accumulator up to
  \<open>length + 2\<close> leads to \<open>WAIT_CRC\<close>.\<close>

lemma feed_payload:
  "state r = WAIT_DATA \<Longrightarrow> list_all is_byte p \<Longrightarrow> p \<noteq> [] \<Longrightarrow>
   int (length (data r)) + int (length p) = length_r r + 2 \<Longrightarrow>
   feed_all r p = Inr (r\<lparr>data := data r @ p, state := WAIT_CRC\<rparr>)"
proof (induction p arbitrary: r)
  case Nil
  then show ?case by simp
next
  case (Cons b p)
  show ?case
  proof (cases "p = []")
    case True
    with Cons.prems show ?thesis by (simp add: feed_WAIT_DATA)
  next
    case False
    let ?r = "r\<lparr>data := data r @ [b]\<rparr>"
    have len: "int (length (b # p)) = 1 + int (length p)" by simp
    from False have pos: "0 < int (length p)" by simp
    from Cons.prems(4) have ne: "int (length (data r)) + 1 \<noteq> length_r r + 2"
      unfolding len using pos by linarith
    from Cons.prems(1,2) ne have step: "feed r b = Inr ?r"
      by (simp add: feed_WAIT_DATA)
    from Cons.prems False have "feed_all ?r p = Inr (?r\<lparr>data := data ?r @ p, state := WAIT_CRC\<rparr>)"
      by (intro Cons.IH) simp_all
    with step show ?thesis by simp
  qed
qed

text \<open>A candidate frame with a payload of at least one byte and any last byte \<open>c\<close>.\<close>

lemma feed_candidate:
  assumes "state r = WAIT_SYNC" and "list_all is_byte p" and "p \<noteq> []"
    and "length p \<le> 255" and "is_byte c"
  shows "feed_all r (0xAA # int (length p) # p @ [c]) =
           Inr (r\<lparr>length_r := int (length p),
                  data := 0xAA # int (length p) # p @ [c],
                  packets := (if xor_loop 0 (int (length p) # p) = c
                              then packets r @ [0xAA # int (length p) # p @ [c]]
                              else packets r),
                  state := WAIT_SYNC\<rparr>)"
proof -
  let ?L = "int (length p)"
  let ?r1 = "r\<lparr>data := [0xAA], state := WAIT_LENGTH\<rparr>"
  let ?r2 = "?r1\<lparr>length_r := ?L, data := [0xAA, ?L], state := WAIT_DATA\<rparr>"
  let ?r3 = "?r2\<lparr>data := 0xAA # ?L # p, state := WAIT_CRC\<rparr>"
  have L: "is_byte ?L" using assms(4) by (simp add: is_byte_def)
  have s1: "feed r 0xAA = Inr ?r1" using assms(1) by (simp add: feed_WAIT_SYNC)
  have s2: "feed ?r1 ?L = Inr ?r2" using L by (simp add: feed_WAIT_LENGTH)
  have s3: "feed_all ?r2 p = Inr ?r3"
    using feed_payload [of ?r2 p] assms(2,3) by simp
  have s4: "feed ?r3 c = Inr (r\<lparr>length_r := int (length p),
                  data := 0xAA # int (length p) # p @ [c],
                  packets := (if xor_loop 0 (int (length p) # p) = c
                              then packets r @ [0xAA # int (length p) # p @ [c]]
                              else packets r),
                  state := WAIT_SYNC\<rparr>)"
    using assms(5) by (simp add: feed_WAIT_CRC)
  have "feed_all r (0xAA # ?L # p @ [c]) =
          (case feed_all ?r2 p of Inl e \<Rightarrow> Inl e | Inr r' \<Rightarrow> feed_all r' [c])"
    using s1 s2 by (simp add: feed_all_append)
  with s3 s4 show ?thesis by simp
qed

lemma is_byte_checksum:
  "length p \<le> 255 \<Longrightarrow> list_all is_byte p \<Longrightarrow> is_byte (xor_loop 0 (int (length p) # p))"
  using is_byte_xor_loop [of 0 "int (length p) # p"] by (simp add: is_byte_def)

text \<open>A correctly checksummed frame with a payload of 1 to 255 bytes, fed in
  \<open>WAIT_SYNC\<close>, is queued and the receiver is in \<open>WAIT_SYNC\<close> again.\<close>

lemma feed_wire_frame:
  assumes "state r = WAIT_SYNC" and "list_all is_byte p" and "p \<noteq> []" and "length p \<le> 255"
  shows "feed_all r (wire_frame p) =
           Inr (r\<lparr>length_r := int (length p), data := wire_frame p,
                  packets := packets r @ [wire_frame p], state := WAIT_SYNC\<rparr>)"
  using feed_candidate [OF assms, of "xor_loop 0 (int (length p) # p)"]
    is_byte_checksum [OF assms(4,2)]
  by (simp add: wire_frame_def)

text \<open>With a length byte of 0 the test \<^verbatim>\<open>len(self.data) == self.length + 2\<close> is first
  made when the accumulator already holds three bytes, so the receiver never leaves
  \<open>WAIT_DATA\<close> again: every later byte is appended to the accumulator.\<close>

lemma zero_length_stuck:
  "state r = WAIT_DATA \<Longrightarrow> length_r r = 0 \<Longrightarrow> 2 \<le> length (data r) \<Longrightarrow> list_all is_byte bs \<Longrightarrow>
   feed_all r bs = Inr (r\<lparr>data := data r @ bs\<rparr>)"
proof (induction bs arbitrary: r)
  case Nil
  then show ?case by simp
next
  case (Cons b bs)
  let ?r = "r\<lparr>data := data r @ [b]\<rparr>"
  from Cons.prems have step: "feed r b = Inr ?r"
    by (simp add: feed_WAIT_DATA)
  from Cons.prems have "feed_all ?r bs = Inr (?r\<lparr>data := data ?r @ bs\<rparr>)"
    by (intro Cons.IH) simp_all
  with step show ?case by simp
qed

subsection \<open>Frames with a non-empty payload are received\<close>

lemma receive_wire_frame:
  assumes "list_all is_byte p" and "p \<noteq> []" and "length p \<le> 255"
  shows "receive (wire_frame p) = Inr [wire_frame p]"
  using feed_wire_frame [of init p] assms
  by (simp add: receive_def get_packets_def init_def)

lemma receive_two_wire_frames:
  assumes "list_all is_byte p" and "p \<noteq> []" and "length p \<le> 255"
    and "list_all is_byte q" and "q \<noteq> []" and "length q \<le> 255"
  shows "receive (wire_frame p @ wire_frame q) = Inr [wire_frame p, wire_frame q]"
proof -
  let ?r = "init\<lparr>length_r := int (length p), data := wire_frame p,
                  packets := packets init @ [wire_frame p], state := WAIT_SYNC\<rparr>"
  have 1: "feed_all init (wire_frame p) = Inr ?r"
    using feed_wire_frame [of init p] assms(1-3) by (simp add: init_def)
  have 2: "feed_all ?r (wire_frame q) =
             Inr (?r\<lparr>length_r := int (length q), data := wire_frame q,
                  packets := packets ?r @ [wire_frame q], state := WAIT_SYNC\<rparr>)"
    using feed_wire_frame [of ?r q] assms(4-6) by simp
  show ?thesis
    using 1 2 by (simp add: receive_def feed_all_append get_packets_def init_def)
qed

subsection \<open>Noise in front of a frame\<close>

lemma feed_noise: "state r = WAIT_SYNC \<Longrightarrow> b \<noteq> 0xAA \<Longrightarrow> feed r b = Inr r"
  by (simp add: feed_WAIT_SYNC)

lemma feed_all_noise:
  "state r = WAIT_SYNC \<Longrightarrow> list_all (\<lambda>b. b \<noteq> 0xAA) n \<Longrightarrow> feed_all r n = Inr r"
  by (induction n) (simp_all add: feed_noise)

subsection \<open>The whole-buffer encoder and parser\<close>

lemma build_packet_wire_frame:
  assumes "is_byte cmd" and "list_all is_byte payload" and "length payload \<le> 254"
  shows "build_packet cmd payload = Inr (wire_frame (cmd # payload))"
proof -
  have L: "is_byte (int (length payload) + 1)" using assms(3) by (simp add: is_byte_def)
  have "is_byte (xor_loop 0 (int (length (cmd # payload)) # cmd # payload))"
    using is_byte_checksum [of "cmd # payload"] assms by simp
  then have C: "is_byte (xor_loop 0 ((int (length payload) + 1) # cmd # payload))"
    by (simp add: add.commute)
  have S: "is_byte 0xAA" by (simp add: is_byte_def)
  show ?thesis
    using assms(1,2) L C S
    by (simp add: build_packet_def bytearray_append_def bytearray_extend_def wire_frame_def
        Let_def add.commute)
qed

lemma parse_packet_wire_frame:
  "parse_packet (wire_frame (cmd # payload)) = Some (cmd, payload)"
  by (simp add: parse_packet_def wire_frame_def Let_def butlast_append)

subsection \<open>Call sequences and the invariant\<close>

lemma feed_packets_prefix:
  "feed r b = Inr r1 \<Longrightarrow>
   feed (r\<lparr>packets := pre @ packets r\<rparr>) b = Inr (r1\<lparr>packets := pre @ packets r1\<rparr>)"
  by (cases "state r")
     (auto simp: feed_def bytearray_append_def Let_def split: if_splits)

lemma run_feed_all:
  "run r cs = Inr (outs, r') \<Longrightarrow>
   feed_all (r\<lparr>packets := pre @ packets r\<rparr>) (fed cs) =
     Inr (r'\<lparr>packets := pre @ concat outs @ packets r'\<rparr>)"
proof (induction r cs arbitrary: outs r' pre rule: run.induct)
  case (1 r)
  then show ?case by simp
next
  case (2 r b cs)
  from "2.prems" obtain r1 where f: "feed r b = Inr r1" and rn: "run r1 cs = Inr (outs, r')"
    by (auto split: sum.splits)
  from "2.IH" [OF f rn] feed_packets_prefix [OF f] show ?case by simp
next
  case (3 r cs)
  from "3.prems" obtain outs' where rn: "run (r\<lparr>packets := []\<rparr>) cs = Inr (outs', r')"
    and o: "outs = packets r # outs'"
    by (auto simp: get_packets_def split: sum.splits)
  have g: "(packets r, r\<lparr>packets := []\<rparr>) = get_packets r" by (simp add: get_packets_def)
  from "3.IH" [OF g rn, of "pre @ packets r"] o show ?case by simp
qed

lemma run_total:
  "list_all is_byte (fed cs) \<Longrightarrow> \<exists>outs r'. run r cs = Inr (outs, r')"
proof (induction r cs rule: run.induct)
  case (1 r)
  then show ?case by simp
next
  case (2 r b cs)
  then have b: "is_byte b" by simp
  have "\<exists>r1. feed r b = Inr r1"
    by (cases "state r")
       (simp_all add: feed_WAIT_SYNC feed_WAIT_LENGTH feed_WAIT_DATA feed_WAIT_CRC b)
  then obtain r1 where f: "feed r b = Inr r1" ..
  from "2.IH" [OF f] "2.prems" f show ?case by simp
next
  case (3 r cs)
  have g: "(packets r, r\<lparr>packets := []\<rparr>) = get_packets r" by (simp add: get_packets_def)
  from "3.IH" [OF g] "3.prems" obtain outs r' where "run (r\<lparr>packets := []\<rparr>) cs = Inr (outs, r')"
    by auto
  then show ?case by (simp add: get_packets_def)
qed

lemma init_inv: "receiver_inv init"
  by (simp add: receiver_inv_def acc_ok_def init_def)

lemma well_formed_snoc:
  assumes "2 \<le> length d" and "d ! 0 = 0xAA" and "int (length d) = d ! 1 + 2"
    and "xor_loop 0 (drop 1 d) = b"
  shows "well_formed (d @ [b])"
proof -
  from assms(1) obtain x y rest where d: "d = x # y # rest"
    by (cases d; cases "tl d") auto
  from assms(2-4) show ?thesis
    by (simp add: d well_formed_def butlast_append)
qed

lemma feed_inv:
  assumes "receiver_inv r" and "feed r b = Inr r'"
  shows "receiver_inv r'"
proof (cases "state r")
  case WAIT_SYNC
  with assms show ?thesis
    by (auto simp: feed_def receiver_inv_def acc_ok_def split: if_splits)
next
  case WAIT_LENGTH
  with assms show ?thesis
    by (auto simp: feed_def bytearray_append_def receiver_inv_def acc_ok_def split: if_splits)
next
  case WAIT_DATA
  with assms show ?thesis
    by (auto simp: feed_def bytearray_append_def receiver_inv_def acc_ok_def nth_append
        split: if_splits)
next
  case WAIT_CRC
  with assms have b: "is_byte b"
    by (auto simp: feed_def bytearray_append_def split: if_splits)
  from assms(1) WAIT_CRC have d: "2 \<le> length (data r)" "data r ! 0 = 0xAA"
    "int (length (data r)) = data r ! 1 + 2" and q: "list_all well_formed (packets r)"
    by (simp_all add: receiver_inv_def acc_ok_def)
  show ?thesis
  proof (cases "xor_loop 0 (drop 1 (data r)) = b")
    case True
    with assms(2) WAIT_CRC b
    have r': "r' = r\<lparr>data := data r @ [b], packets := packets r @ [data r @ [b]], state := WAIT_SYNC\<rparr>"
      by (simp add: feed_WAIT_CRC)
    from well_formed_snoc [OF d True] q show ?thesis
      by (simp add: r' receiver_inv_def acc_ok_def)
  next
    case False
    with assms(2) WAIT_CRC b
    have r': "r' = r\<lparr>data := data r @ [b], state := WAIT_SYNC\<rparr>"
      by (simp add: feed_WAIT_CRC)
    from q show ?thesis
      by (simp add: r' receiver_inv_def acc_ok_def)
  qed
qed

lemma feed_all_inv:
  "receiver_inv r \<Longrightarrow> feed_all r bs = Inr r' \<Longrightarrow> receiver_inv r'"
  by (induction bs arbitrary: r) (auto split: sum.splits dest: feed_inv)

lemma run_inv:
  "receiver_inv r \<Longrightarrow> run r cs = Inr (outs, r') \<Longrightarrow>
   receiver_inv r' \<and> list_all (list_all well_formed) outs"
proof (induction r cs arbitrary: outs r' rule: run.induct)
  case (1 r)
  then show ?case by simp
next
  case (2 r b cs)
  from "2.prems"(2) obtain r1 where f: "feed r b = Inr r1" and rn: "run r1 cs = Inr (outs, r')"
    by (auto split: sum.splits)
  from "2.IH" [OF f feed_inv [OF "2.prems"(1) f] rn] show ?case .
next
  case (3 r cs)
  from "3.prems"(2) obtain outs' where rn: "run (r\<lparr>packets := []\<rparr>) cs = Inr (outs', r')"
    and o: "outs = packets r # outs'"
    by (auto simp: get_packets_def split: sum.splits)
  have g: "(packets r, r\<lparr>packets := []\<rparr>) = get_packets r" by (simp add: get_packets_def)
  from "3.prems"(1) have i: "receiver_inv (r\<lparr>packets := []\<rparr>)" and q: "list_all well_formed (packets r)"
    by (simp_all add: receiver_inv_def acc_ok_def split: RxState.splits)
  from "3.IH" [OF g i rn] q o show ?case by simp
qed

lemma well_formed_candidate:
  "well_formed (candidate p c) \<longleftrightarrow> c = xor_loop 0 (int (length p) # p)"
  by (auto simp: well_formed_def candidate_def butlast_append)

lemma list_all_concat: "list_all (list_all P) xss \<Longrightarrow> list_all P (concat xss)"
  by (induction xss) simp_all

lemma not_well_formed_notin: "list_all well_formed fs \<Longrightarrow> \<not> well_formed f \<Longrightarrow> f \<notin> set fs"
  by (auto simp: list_all_iff)

subsection \<open>The checksum gate, for frames with a non-empty payload\<close>

text \<open>
  In a receiver reached from a fresh one and waiting in \<open>WAIT_SYNC\<close>, a candidate with
  a payload of at least one byte is queued if and only if its last byte is the
  checksum; a candidate with another last byte is in no output and no queue, before or
  after. The receiver is in \<open>WAIT_SYNC\<close> afterwards, and a valid frame with a payload
  of 1 to 255 bytes fed next is queued.
\<close>

lemma checksum_gate_nonempty:
  assumes reach: "run init cs = Inr (outs, r)" and sync: "state r = WAIT_SYNC"
    and p: "list_all is_byte p" "p \<noteq> []" "length p \<le> 255" and c: "is_byte c"
    and q: "list_all is_byte q" "q \<noteq> []" "length q \<le> 255"
  shows "\<exists>r' r''.
     feed_all r (candidate p c) = Inr r' \<and> state r' = WAIT_SYNC \<and>
     packets r' = (if c = xor_loop 0 (int (length p) # p) then packets r @ [candidate p c]
                   else packets r) \<and>
     (c = xor_loop 0 (int (length p) # p) \<or>
      (candidate p c \<notin> set (concat outs) \<and> candidate p c \<notin> set (packets r') \<and>
       (\<forall>cs' outs' r3. run r' cs' = Inr (outs', r3) \<longrightarrow>
          candidate p c \<notin> set (concat outs') \<and> candidate p c \<notin> set (packets r3)))) \<and>
     feed_all r' (wire_frame q) = Inr r'' \<and> state r'' = WAIT_SYNC \<and>
     packets r'' = packets r' @ [wire_frame q]"
proof -
  let ?x = "xor_loop 0 (int (length p) # p)"
  let ?r' = "r\<lparr>length_r := int (length p), data := candidate p c,
               packets := (if ?x = c then packets r @ [candidate p c] else packets r),
               state := WAIT_SYNC\<rparr>"
  let ?r'' = "?r'\<lparr>length_r := int (length q), data := wire_frame q,
                  packets := packets ?r' @ [wire_frame q], state := WAIT_SYNC\<rparr>"
  have f1: "feed_all r (candidate p c) = Inr ?r'"
    using feed_candidate [OF sync p c] by (simp add: candidate_def)
  have s1: "state ?r' = WAIT_SYNC" by simp
  have f2: "feed_all ?r' (wire_frame q) = Inr ?r''"
    using feed_wire_frame [OF s1 q] .
  have inv_r: "receiver_inv r" and wf_outs: "list_all (list_all well_formed) outs"
    using run_inv [OF init_inv reach] by simp_all
  have inv_r': "receiver_inv ?r'"
    using feed_all_inv [OF inv_r f1] .
  have bad: "candidate p c \<notin> set (concat outs) \<and> candidate p c \<notin> set (packets ?r') \<and>
       (\<forall>cs' outs' r3. run ?r' cs' = Inr (outs', r3) \<longrightarrow>
          candidate p c \<notin> set (concat outs') \<and> candidate p c \<notin> set (packets r3))"
    if ne: "c \<noteq> ?x"
  proof -
    from ne have nwf: "\<not> well_formed (candidate p c)"
      by (simp add: well_formed_candidate)
    have a: "candidate p c \<notin> set (concat outs)"
      using not_well_formed_notin [OF list_all_concat [OF wf_outs] nwf] .
    have b: "candidate p c \<notin> set (packets ?r')"
      using inv_r' not_well_formed_notin [OF _ nwf] by (simp add: receiver_inv_def)
    have "candidate p c \<notin> set (concat outs') \<and> candidate p c \<notin> set (packets r3)"
      if rn: "run ?r' cs' = Inr (outs', r3)" for cs' outs' r3
    proof -
      from run_inv [OF inv_r' rn]
      have "list_all well_formed (packets r3)" and "list_all (list_all well_formed) outs'"
        by (simp_all add: receiver_inv_def)
      then show ?thesis
        using not_well_formed_notin [OF _ nwf] list_all_concat by blast
    qed
    with a b show ?thesis by blast
  qed
  have pk: "packets ?r' = (if c = ?x then packets r @ [candidate p c] else packets r)"
    by auto
  show ?thesis
    apply (rule exI [of _ ?r'], rule exI [of _ ?r''])
    using f1 f2 pk bad by (cases "c = ?x") simp_all
qed

lemma checksum_gate_nonempty_example:
  "run init [] = Inr ([], init) \<and> state init = WAIT_SYNC \<and>
   list_all is_byte [0x02] \<and> [0x02 :: int] \<noteq> [] \<and> length [0x02 :: int] \<le> 255 \<and> is_byte 0x04 \<and>
   candidate [0x02] 0x04 = [0xAA, 0x01, 0x02, 0x04] \<and> wire_frame [0x02] = [0xAA, 0x01, 0x02, 0x03] \<and>
   (\<exists>r' r''. feed_all init [0xAA, 0x01, 0x02, 0x04] = Inr r' \<and> state r' = WAIT_SYNC \<and>
      packets r' = [] \<and>
      feed_all r' [0xAA, 0x01, 0x02, 0x03] = Inr r'' \<and> state r'' = WAIT_SYNC \<and>
      packets r'' = [[0xAA, 0x01, 0x02, 0x03]])"
proof -
  have h1: "run init [] = Inr ([], init)" by simp
  have h2: "state init = WAIT_SYNC" by (simp add: init_def)
  have h3: "list_all is_byte [0x02]" by (simp add: is_byte_def)
  have h4: "[0x02 :: int] \<noteq> []" by simp
  have h5: "length [0x02 :: int] \<le> 255" by simp
  have h6: "is_byte 0x04" by (simp add: is_byte_def)
  have e1: "candidate [0x02] 0x04 = [0xAA, 0x01, 0x02, 0x04]" by (simp add: candidate_def)
  have e2: "wire_frame [0x02] = [0xAA, 0x01, 0x02, 0x03]" by (simp add: wire_frame_def)
  have e3: "packets init = []" by (simp add: init_def)
  have e4: "xor_loop 0 (int (length [0x02 :: int]) # [0x02]) = 0x03" by simp
  from checksum_gate_nonempty [OF h1 h2 h3 h4 h5 h6 h3 h4 h5]
  have "\<exists>r' r''. feed_all init [0xAA, 0x01, 0x02, 0x04] = Inr r' \<and> state r' = WAIT_SYNC \<and>
      packets r' = [] \<and>
      feed_all r' [0xAA, 0x01, 0x02, 0x03] = Inr r'' \<and> state r'' = WAIT_SYNC \<and>
      packets r'' = [[0xAA, 0x01, 0x02, 0x03]]"
    unfolding e1 e2 e3 e4 by auto
  with h1 h2 h3 h4 h5 h6 e1 e2 show ?thesis by blast
qed

section \<open>The claims\<close>

text \<open>
  C1. Feeding a fresh receiver the bytes 0xAA, 0x00, 0x00 and then calling
  \<open>get_packets\<close> should return the single frame [0xAA, 0x00, 0x00]. The code returns
  no frame: after the length byte 0 the receiver is in \<open>WAIT_DATA\<close>, the third byte is
  taken as data, and the accumulator then holds 3 bytes where the test expects 2.
\<close>

theorem zero_length_frame_lost:
  "receive [0xAA, 0x00, 0x00] = Inr [] \<and>
   feed_all init [0xAA, 0x00, 0x00] =
     Inr \<lparr>state = WAIT_DATA, length_r = 0, data = [0xAA, 0x00, 0x00], packets = []\<rparr>"
  by (simp add: receive_def init_def feed_def bytearray_append_def is_byte_def get_packets_def)

text \<open>
  C2. The round trip of a payload \<open>p\<close> with \<open>0 \<le> len(p) \<le> 255\<close> through its wire frame
  and a fresh receiver should return that frame. For the empty payload it does not:
  the wire frame of \<open>[]\<close> is the zero-length frame of C1 and nothing is returned. For
  payloads of 1 to 255 bytes the round trip holds (lemma \<open>receive_wire_frame\<close>).
\<close>

theorem empty_payload_roundtrip_fails:
  "wire_frame [] = [0xAA, 0x00, 0x00] \<and> receive (wire_frame []) = Inr []"
  by (simp add: wire_frame_def receive_def init_def feed_def bytearray_append_def is_byte_def
      get_packets_def)

text \<open>
  C3. A candidate frame with a payload of \<open>L \<ge> 1\<close> bytes should be queued if and only if
  its last byte is the XOR of the length byte and the payload bytes, and in both cases
  the receiver should be in \<open>WAIT_SYNC\<close> again so that a valid frame fed immediately
  afterwards is recovered. The gate itself works (lemma \<open>checksum_gate_nonempty\<close>), but
  the valid frame fed afterwards is not always recovered: after the rejected candidate
  [0xAA, 0x01, 0x02, 0x04] (or the accepted [0xAA, 0x01, 0x02, 0x03]) the valid
  zero-length frame [0xAA, 0x00, 0x00] leaves the receiver in \<open>WAIT_DATA\<close> and is never
  queued.
\<close>

theorem valid_frame_after_candidate_lost:
  "candidate [0x02] 0x04 = [0xAA, 0x01, 0x02, 0x04] \<and> wire_frame [] = [0xAA, 0x00, 0x00] \<and>
   feed_all init (candidate [0x02] 0x04) =
     Inr \<lparr>state = WAIT_SYNC, length_r = 1, data = [0xAA, 0x01, 0x02, 0x04], packets = []\<rparr> \<and>
   feed_all init (candidate [0x02] 0x04 @ wire_frame []) =
     Inr \<lparr>state = WAIT_DATA, length_r = 0, data = [0xAA, 0x00, 0x00], packets = []\<rparr> \<and>
   receive (candidate [0x02] 0x04 @ wire_frame []) = Inr [] \<and>
   receive (candidate [0x02] 0x03 @ wire_frame []) = Inr [candidate [0x02] 0x03]"
  by (simp add: candidate_def wire_frame_def receive_def init_def feed_def bytearray_append_def
      is_byte_def get_packets_def)

text \<open>
  C4. Two valid frames fed back to back to a fresh receiver should both be returned,
  in order, by one \<open>get_packets\<close>. When the first frame has length 0 the receiver
  takes everything after it as data and returns nothing; when the second has length 0
  only the first is returned. For two frames with payloads of 1 to 255 bytes the
  property holds (lemma \<open>receive_two_wire_frames\<close>).
\<close>

theorem back_to_back_after_empty_frame_lost:
  "wire_frame [] = [0xAA, 0x00, 0x00] \<and> wire_frame [0x02] = [0xAA, 0x01, 0x02, 0x03] \<and>
   receive (wire_frame [] @ wire_frame [0x02]) = Inr [] \<and>
   receive (wire_frame [0x02] @ wire_frame []) = Inr [wire_frame [0x02]]"
  by (simp add: wire_frame_def receive_def init_def feed_def bytearray_append_def is_byte_def
      get_packets_def)

text \<open>
  C5. For every sequence \<open>n\<close> of noise bytes none of which is 0xAA and every byte
  sequence \<open>f\<close> (in particular every valid frame), feeding \<open>n\<close> followed by \<open>f\<close> to a
  fresh receiver and calling \<open>get_packets\<close> gives the same result as feeding \<open>f\<close>
  alone; each noise byte on its own leaves the fresh receiver as it is, in
  \<open>WAIT_SYNC\<close>.
\<close>

theorem noise_before_frame:
  assumes "list_all (\<lambda>b. b \<noteq> 0xAA) n"
  shows "receive (n @ f) = receive f \<and> feed_all init (n @ f) = feed_all init f \<and>
         list_all (\<lambda>b. feed init b = Inr init) n"
proof -
  have s: "state init = WAIT_SYNC" by (simp add: init_def)
  have "feed_all init n = Inr init"
    using feed_all_noise [OF s assms] .
  then have eq: "feed_all init (n @ f) = feed_all init f"
    by (simp add: feed_all_append)
  have "list_all (\<lambda>b. feed init b = Inr init) n"
    using assms by (induction n) (simp_all add: feed_noise [OF s])
  with eq show ?thesis by (simp add: receive_def)
qed

theorem noise_before_frame_witness:
  "list_all (\<lambda>b. b \<noteq> 0xAA) [0x00, 0xFF :: int] \<and>
   receive ([0x00, 0xFF] @ [0xAA, 0x01, 0x02, 0x03]) = receive [0xAA, 0x01, 0x02, 0x03] \<and>
   receive [0xAA, 0x01, 0x02, 0x03] = Inr [[0xAA, 0x01, 0x02, 0x03]]"
proof -
  have h: "list_all (\<lambda>b. b \<noteq> 0xAA) [0x00, 0xFF :: int]" by simp
  have r: "receive [0xAA, 0x01, 0x02, 0x03] = Inr [[0xAA, 0x01, 0x02, 0x03]]"
    by (simp add: receive_def init_def feed_def bytearray_append_def is_byte_def get_packets_def)
  from noise_before_frame [OF h, of "[0xAA, 0x01, 0x02, 0x03]"] h r show ?thesis by blast
qed

text \<open>
  C6. In \<open>WAIT_LENGTH\<close> and in \<open>WAIT_DATA\<close> the byte 0xAA is appended to the
  accumulator like any other byte (as the length in \<open>WAIT_LENGTH\<close>) and the receiver
  does not go back to the start of a frame; feeding 0xAA 0x01 0xAA 0xAB to a fresh
  receiver returns the one frame [0xAA, 0x01, 0xAA, 0xAB].
\<close>

theorem sync_byte_inside_frame:
  assumes "state r = WAIT_LENGTH \<or> state r = WAIT_DATA"
  shows "receive [0xAA, 0x01, 0xAA, 0xAB] = Inr [[0xAA, 0x01, 0xAA, 0xAB]] \<and>
         (\<exists>r'. feed r 0xAA = Inr r' \<and> data r' = data r @ [0xAA] \<and> packets r' = packets r \<and>
               state r' \<noteq> WAIT_LENGTH \<and> state r' \<noteq> WAIT_SYNC \<and>
               length_r r' = (if state r = WAIT_LENGTH then 0xAA else length_r r))"
proof -
  have c: "receive [0xAA, 0x01, 0xAA, 0xAB] = Inr [[0xAA, 0x01, 0xAA, 0xAB]]"
    by (simp add: receive_def init_def feed_def bytearray_append_def is_byte_def get_packets_def)
  have b: "is_byte 0xAA" by (simp add: is_byte_def)
  from assms have "\<exists>r'. feed r 0xAA = Inr r' \<and> data r' = data r @ [0xAA] \<and> packets r' = packets r \<and>
               state r' \<noteq> WAIT_LENGTH \<and> state r' \<noteq> WAIT_SYNC \<and>
               length_r r' = (if state r = WAIT_LENGTH then 0xAA else length_r r)"
  proof
    assume "state r = WAIT_LENGTH"
    then show ?thesis by (simp add: feed_WAIT_LENGTH [OF _ b])
  next
    assume "state r = WAIT_DATA"
    then show ?thesis by (simp add: feed_WAIT_DATA [OF _ b])
  qed
  with c show ?thesis by blast
qed

theorem sync_byte_inside_frame_witness:
  "feed \<lparr>state = WAIT_LENGTH, length_r = 0, data = [0xAA], packets = []\<rparr> 0xAA
     = Inr \<lparr>state = WAIT_DATA, length_r = 0xAA, data = [0xAA, 0xAA], packets = []\<rparr> \<and>
   feed \<lparr>state = WAIT_DATA, length_r = 1, data = [0xAA, 0x01], packets = []\<rparr> 0xAA
     = Inr \<lparr>state = WAIT_CRC, length_r = 1, data = [0xAA, 0x01, 0xAA], packets = []\<rparr> \<and>
   receive [0xAA, 0x01, 0xAA, 0xAB] = Inr [[0xAA, 0x01, 0xAA, 0xAB]]"
proof -
  let ?r1 = "\<lparr>state = WAIT_LENGTH, length_r = 0, data = [0xAA], packets = []\<rparr>"
  let ?r2 = "\<lparr>state = WAIT_DATA, length_r = 1, data = [0xAA, 0x01], packets = []\<rparr>"
  have h1: "state ?r1 = WAIT_LENGTH \<or> state ?r1 = WAIT_DATA" by simp
  have h2: "state ?r2 = WAIT_LENGTH \<or> state ?r2 = WAIT_DATA" by simp
  have e1: "feed ?r1 0xAA =
      Inr \<lparr>state = WAIT_DATA, length_r = 0xAA, data = [0xAA, 0xAA], packets = []\<rparr>"
    by (simp add: feed_def bytearray_append_def is_byte_def)
  have e2: "feed ?r2 0xAA =
      Inr \<lparr>state = WAIT_CRC, length_r = 1, data = [0xAA, 0x01, 0xAA], packets = []\<rparr>"
    by (simp add: feed_def bytearray_append_def is_byte_def)
  from sync_byte_inside_frame [OF h1] sync_byte_inside_frame [OF h2] e1 e2 show ?thesis by blast
qed

text \<open>
  C7. For every byte value 0..255 and every receiver (reachable or not), \<open>feed\<close>
  returns normally. The receiver afterwards is either unchanged (the byte is
  discarded), or has the same queue and a new state or the byte appended to its
  accumulator, or, from \<open>WAIT_CRC\<close> with a matching checksum, has the accumulated frame
  appended to its queue.
\<close>

theorem feed_total:
  assumes "is_byte b"
  shows "\<exists>r'. feed r b = Inr r' \<and>
           (r' = r \<or>
            (packets r' = packets r \<and> (state r' \<noteq> state r \<or> data r' = data r @ [b])) \<or>
            (state r = WAIT_CRC \<and> state r' = WAIT_SYNC \<and>
             packets r' = packets r @ [data r @ [b]] \<and> xor_loop 0 (drop 1 (data r)) = b))"
proof (cases "state r")
  case WAIT_SYNC
  then show ?thesis by (simp add: feed_WAIT_SYNC)
next
  case WAIT_LENGTH
  then show ?thesis using assms by (simp add: feed_WAIT_LENGTH)
next
  case WAIT_DATA
  then show ?thesis using assms by (simp add: feed_WAIT_DATA)
next
  case WAIT_CRC
  then show ?thesis using assms by (simp add: feed_WAIT_CRC)
qed

theorem feed_total_witness:
  "is_byte 0x03 \<and>
   (\<exists>r'. feed \<lparr>state = WAIT_CRC, length_r = 1, data = [0xAA, 0x01, 0x02], packets = []\<rparr> 0x03
            = Inr r' \<and> packets r' = [[0xAA, 0x01, 0x02, 0x03]])"
proof -
  let ?r = "\<lparr>state = WAIT_CRC, length_r = 1, data = [0xAA, 0x01, 0x02], packets = []\<rparr>"
  have h: "is_byte 0x03" by (simp add: is_byte_def)
  from feed_total [OF h, of ?r]
  obtain r' where f: "feed ?r 0x03 = Inr r'"
    and e: "r' = ?r \<or>
            (packets r' = packets ?r \<and> (state r' \<noteq> state ?r \<or> data r' = data ?r @ [0x03])) \<or>
            (state ?r = WAIT_CRC \<and> state r' = WAIT_SYNC \<and>
             packets r' = packets ?r @ [data ?r @ [0x03]] \<and> xor_loop 0 (drop 1 (data ?r)) = 0x03)"
    by blast
  have "feed ?r 0x03 = Inr \<lparr>state = WAIT_SYNC, length_r = 1, data = [0xAA, 0x01, 0x02, 0x03],
          packets = [[0xAA, 0x01, 0x02, 0x03]]\<rparr>"
    by (simp add: feed_def bytearray_append_def is_byte_def)
  with f have "packets r' = [[0xAA, 0x01, 0x02, 0x03]]" by auto
  with f h show ?thesis by blast
qed

text \<open>
  C8. After any calls on a fresh receiver, \<open>get_packets\<close> returns the queue and leaves
  it empty, so a second call right after returns the empty list. The outputs of all
  earlier \<open>get_packets\<close> calls, concatenated in call order and followed by what the next
  call returns, are exactly the frames that the fed bytes complete, in the order of
  completion (the queue of a receiver fed the same bytes and never drained): every
  completed frame is returned once, by the first call after its completion.
\<close>

theorem get_packets_drains_once:
  assumes "run init cs = Inr (outs, r)"
  shows "fst (get_packets r) = packets r \<and>
         packets (snd (get_packets r)) = [] \<and>
         fst (get_packets (snd (get_packets r))) = [] \<and>
         (\<exists>r0. feed_all init (fed cs) = Inr r0 \<and>
               packets r0 = concat outs @ fst (get_packets r) \<and>
               state r0 = state r \<and> data r0 = data r \<and> length_r r0 = length_r r)"
proof -
  have "feed_all init (fed cs) = Inr (r\<lparr>packets := concat outs @ packets r\<rparr>)"
    using run_feed_all [OF assms, of "[]"] by (simp add: init_def)
  then show ?thesis by (simp add: get_packets_def)
qed

theorem get_packets_drains_once_witness:
  "run init [Feed 0xAA, Feed 0x01, Feed 0x02, Feed 0x03, GetPackets,
             Feed 0xAA, Feed 0x01, Feed 0x02, Feed 0x03, Feed 0xAA, Feed 0x01, Feed 0x05, Feed 0x04]
     = Inr ([[[0xAA, 0x01, 0x02, 0x03]]],
            \<lparr>state = WAIT_SYNC, length_r = 1, data = [0xAA, 0x01, 0x05, 0x04],
             packets = [[0xAA, 0x01, 0x02, 0x03], [0xAA, 0x01, 0x05, 0x04]]\<rparr>) \<and>
   (\<exists>r0. feed_all init [0xAA, 0x01, 0x02, 0x03, 0xAA, 0x01, 0x02, 0x03, 0xAA, 0x01, 0x05, 0x04]
            = Inr r0 \<and>
          packets r0 = [[0xAA, 0x01, 0x02, 0x03], [0xAA, 0x01, 0x02, 0x03], [0xAA, 0x01, 0x05, 0x04]])"
proof -
  let ?cs = "[Feed 0xAA, Feed 0x01, Feed 0x02, Feed 0x03, GetPackets,
             Feed 0xAA, Feed 0x01, Feed 0x02, Feed 0x03, Feed 0xAA, Feed 0x01, Feed 0x05, Feed 0x04]"
  let ?r = "\<lparr>state = WAIT_SYNC, length_r = 1, data = [0xAA, 0x01, 0x05, 0x04],
             packets = [[0xAA, 0x01, 0x02, 0x03], [0xAA, 0x01, 0x05, 0x04]]\<rparr>"
  have h: "run init ?cs = Inr ([[[0xAA, 0x01, 0x02, 0x03]]], ?r)"
    by (simp add: init_def feed_def bytearray_append_def is_byte_def get_packets_def)
  have f: "fed ?cs = [0xAA, 0x01, 0x02, 0x03, 0xAA, 0x01, 0x02, 0x03, 0xAA, 0x01, 0x05, 0x04]"
    by simp
  have g: "concat [[[0xAA, 0x01, 0x02, 0x03 :: int]]] @ fst (get_packets ?r) =
      [[0xAA, 0x01, 0x02, 0x03], [0xAA, 0x01, 0x02, 0x03], [0xAA, 0x01, 0x05, 0x04]]"
    by (simp add: get_packets_def)
  from get_packets_drains_once [OF h] show ?thesis
    unfolding f g using h by blast
qed

text \<open>
  C9. For every \<open>cmd\<close> in 0..255 and every payload of at most 254 bytes, each in
  0..255, \<open>build_packet\<close> returns a packet and \<open>parse_packet\<close> of that packet returns
  \<open>(cmd, payload)\<close>, not \<open>None\<close>.
\<close>

theorem parse_build_packet:
  assumes "is_byte cmd" and "list_all is_byte payload" and "length payload \<le> 254"
  shows "\<exists>pkt. build_packet cmd payload = Inr pkt \<and> parse_packet pkt = Some (cmd, payload)"
  using build_packet_wire_frame [OF assms] parse_packet_wire_frame [of cmd payload] by simp

theorem parse_build_packet_witness:
  "is_byte 0x01 \<and> list_all is_byte [0x10, 0x20] \<and> length [0x10, 0x20 :: int] \<le> 254 \<and>
   build_packet 0x01 [0x10, 0x20] = Inr [0xAA, 0x03, 0x01, 0x10, 0x20, 0x32] \<and>
   parse_packet [0xAA, 0x03, 0x01, 0x10, 0x20, 0x32] = Some (0x01, [0x10, 0x20])"
proof -
  have h1: "is_byte 0x01" by (simp add: is_byte_def)
  have h2: "list_all is_byte [0x10, 0x20]" by (simp add: is_byte_def)
  have h3: "length [0x10, 0x20 :: int] \<le> 254" by simp
  have b: "build_packet 0x01 [0x10, 0x20] = Inr [0xAA, 0x03, 0x01, 0x10, 0x20, 0x32]"
    by (simp add: build_packet_def bytearray_append_def bytearray_extend_def is_byte_def)
  from parse_build_packet [OF h1 h2 h3] b h1 h2 h3 show ?thesis by simp
qed

text \<open>
  C10. The fresh receiver satisfies the invariant \<open>receiver_inv\<close>, and from any
  receiver that satisfies it, after any sequence of \<open>feed\<close> and \<open>get_packets\<close> calls
  the invariant holds again, every frame \<open>f\<close> in the queue and every frame returned by
  a \<open>get_packets\<close> call is well formed: \<open>f[0] = 0xAA\<close>, \<open>len(f) = f[1] + 3\<close>, and the
  last byte of \<open>f\<close> is the XOR of \<open>f[1] .. f[len(f)-2]\<close>.
\<close>

theorem queued_frames_well_formed:
  assumes "receiver_inv s" and "run s cs = Inr (outs, r)"
  shows "receiver_inv init \<and> receiver_inv r \<and> list_all well_formed (packets r) \<and>
         list_all (list_all well_formed) outs"
  using run_inv [OF assms] init_inv by (simp add: receiver_inv_def)

theorem queued_frames_well_formed_witness:
  "receiver_inv init \<and>
   run init [Feed 0x00, Feed 0xFF, Feed 0xAA, Feed 0x02, Feed 0x01, Feed 0x55, Feed 0x56, GetPackets,
             Feed 0x00, Feed 0xAA, Feed 0x01, Feed 0x02, Feed 0x03]
     = Inr ([[[0xAA, 0x02, 0x01, 0x55, 0x56]]],
            \<lparr>state = WAIT_SYNC, length_r = 1, data = [0xAA, 0x01, 0x02, 0x03],
             packets = [[0xAA, 0x01, 0x02, 0x03]]\<rparr>) \<and>
   well_formed [0xAA, 0x02, 0x01, 0x55, 0x56] \<and> well_formed [0xAA, 0x01, 0x02, 0x03]"
proof -
  let ?cs = "[Feed 0x00, Feed 0xFF, Feed 0xAA, Feed 0x02, Feed 0x01, Feed 0x55, Feed 0x56, GetPackets,
             Feed 0x00, Feed 0xAA, Feed 0x01, Feed 0x02, Feed 0x03]"
  let ?r = "\<lparr>state = WAIT_SYNC, length_r = 1, data = [0xAA, 0x01, 0x02, 0x03],
             packets = [[0xAA, 0x01, 0x02, 0x03]]\<rparr>"
  have h1: "receiver_inv init" by (simp add: receiver_inv_def acc_ok_def init_def)
  have h2: "run init ?cs = Inr ([[[0xAA, 0x02, 0x01, 0x55, 0x56]]], ?r)"
    by (simp add: init_def feed_def bytearray_append_def is_byte_def get_packets_def)
  from queued_frames_well_formed [OF h1 h2] h1 h2 show ?thesis by simp
qed

end
